theory Spec2Isabelle
  imports Main "HOL-Library.Word"
begin

section \<open>The circular buffer of CircularBuffer.hpp\<close>

text \<open>
  The class \<open>CircularBuffer<T>\<close> keeps its elements in a raw byte array and moves two
  byte offsets through it. The embedding keeps that layout: \<open>std::size_t\<close> is a 64-bit
  word (so \<open>+\<close> and \<open>*\<close> wrap as they do in C++), the backing store is a list of bytes,
  and a value of type \<open>T\<close> is its object representation, a list of \<open>sizeof(T)\<close> bytes,
  which is all that \<open>std::memcpy\<close> sees of it.

  Every public member function takes the mutex for its whole body, so each call is one
  atomic state transition; the functions below are those transitions, with the object
  passed in and returned.
\<close>

type_synonym size_t = "64 word"
type_synonym byte = "8 word"
type_synonym packet = "byte list"

record CircularBuffer =
  packetSize :: size_t
  bufferSize :: size_t
  rawBufferSize :: size_t
  buffer :: "byte list"
  readPtr :: size_t
  writePtr :: size_t

text \<open>
  The ways a call can end other than by returning: the two exception classes thrown by
  \<open>read\<close> and \<open>write\<close>, the failed \<open>assert\<close> of the constructor, the
  \<open>std::bad_alloc\<close> of a failed \<open>new\<close>, and the division by zero of \<open>%\<close>, after
  which the call does not return at all. Both exception classes declare their
  constructor private; the embedding takes the two \<open>throw\<close> statements as they are
  written.
\<close>

datatype error =
  ErrorNothingToRead | ErrorBufferBusy | AssertionFailed | BadAlloc | DivisionByZero

subsection \<open>Construction\<close>

text \<open>
  The member initialisers run in declaration order: \<open>_packetSize(sizeof(T))\<close>,
  \<open>_bufferSize(bufferSize)\<close>, \<open>_rawBufferSize(_packetSize * _bufferSize)\<close> (a product
  of two \<open>size_t\<close>, which wraps), \<open>_buffer(new std::uint8_t[_rawBufferSize])\<close>, and
  both offsets 0. Then the body asserts \<open>bufferSize > 1\<close>.

  The \<open>new\<close> expression depends on the free store, which is the parameter \<open>alloc\<close>:
  asked for \<open>n\<close> bytes it either fails (\<open>std::bad_alloc\<close>, thrown before the
  assertion is reached) or hands out \<open>n\<close> bytes that are not initialised, given here
  by the function that says which byte lies at which index.
\<close>

definition new_CircularBuffer ::
  "(nat \<Rightarrow> (nat \<Rightarrow> byte) option) \<Rightarrow> size_t \<Rightarrow> size_t \<Rightarrow> error + CircularBuffer" where
  "new_CircularBuffer alloc sizeof_T bufSize =
     (let raw = sizeof_T * bufSize
      in case alloc (unat raw) of
           None \<Rightarrow> Inl BadAlloc
         | Some heap \<Rightarrow>
             (let obj = \<lparr> packetSize = sizeof_T, bufferSize = bufSize, rawBufferSize = raw,
                           buffer = map heap [0..<unat raw], readPtr = 0, writePtr = 0 \<rparr>
              in if 1 < bufSize then Inr obj else Inl AssertionFailed))"

subsection \<open>Offsets and the two predicates\<close>

text \<open>
  \<open>nextIndex\<close> is \<open>(index + _packetSize) % _rawBufferSize\<close> on \<open>size_t\<close>. With
  \<open>_rawBufferSize = 0\<close> the \<open>%\<close> divides by zero and \<open>nextIndex\<close> does not return;
  every caller passes that on.
\<close>

definition nextIndex :: "CircularBuffer \<Rightarrow> size_t \<Rightarrow> error + size_t" where
  "nextIndex b index =
     (if rawBufferSize b = 0 then Inl DivisionByZero
      else Inr ((index + packetSize b) mod rawBufferSize b))"

definition canReadNotThreadSafe :: "CircularBuffer \<Rightarrow> bool" where
  "canReadNotThreadSafe b = (readPtr b \<noteq> writePtr b)"

definition canWriteNotThreadSafe :: "CircularBuffer \<Rightarrow> error + bool" where
  "canWriteNotThreadSafe b =
     (case nextIndex b (writePtr b) of
        Inl e \<Rightarrow> Inl e
      | Inr i \<Rightarrow> Inr (i \<noteq> readPtr b))"

text \<open>The public queries lock, ask, and return; the object is handed back as it was.\<close>

definition canRead :: "CircularBuffer \<Rightarrow> bool \<times> CircularBuffer" where
  "canRead b = (canReadNotThreadSafe b, b)"

definition canWrite :: "CircularBuffer \<Rightarrow> (error + bool) \<times> CircularBuffer" where
  "canWrite b = (canWriteNotThreadSafe b, b)"

subsection \<open>Copying bytes\<close>

text \<open>
  \<open>std::memcpy(&value, _buffer + off, n)\<close> reads \<open>n\<close> bytes at offset \<open>off\<close> of the
  store; \<open>std::memcpy(_buffer + off, &src, n)\<close> overwrites \<open>n\<close> bytes there with the
  first \<open>n\<close> bytes of \<open>src\<close>. Both stay inside the store when
  \<open>off + n \<le> length store\<close>, which \<open>buffer_inv\<close> guarantees for every offset the
  class uses. Past the end of the store C++ leaves the copy undefined; the lists below
  then read what is there and write on past the end.
\<close>

definition memcpy_from :: "byte list \<Rightarrow> size_t \<Rightarrow> size_t \<Rightarrow> packet" where
  "memcpy_from store off n = take (unat n) (drop (unat off) store)"

definition memcpy_to :: "byte list \<Rightarrow> size_t \<Rightarrow> packet \<Rightarrow> size_t \<Rightarrow> byte list" where
  "memcpy_to store off src n =
     take (unat off) store @ take (unat n) src @ drop (unat off + unat n) store"

subsection \<open>read\<close>

text \<open>
  The \<open>for\<close> loop of \<open>read\<close>: while the offsets differ, copy the element at
  \<open>_readPtr\<close> out, append it to \<open>values\<close>, and move \<open>_readPtr\<close> on with
  \<open>nextIndex\<close>. The first argument bounds the number of iterations: the result is
  \<open>None\<close> when the loop wants to run once more than that.
\<close>

fun read_loop ::
  "nat \<Rightarrow> CircularBuffer \<Rightarrow> packet list \<Rightarrow> ((error + packet list) \<times> CircularBuffer) option" where
  "read_loop 0 b values = (if readPtr b \<noteq> writePtr b then None else Some (Inr values, b))"
| "read_loop (Suc n) b values =
     (if readPtr b \<noteq> writePtr b
      then (case nextIndex b (readPtr b) of
              Inl e \<Rightarrow> Some (Inl e, b)
            | Inr i \<Rightarrow>
                read_loop n (b\<lparr>readPtr := i\<rparr>)
                  (values @ [memcpy_from (buffer b) (readPtr b) (packetSize b)]))
      else Some (Inr values, b))"

definition read :: "nat \<Rightarrow> CircularBuffer \<Rightarrow> ((error + packet list) \<times> CircularBuffer) option" where
  "read n b =
     (if canReadNotThreadSafe b = False then Some (Inl ErrorNothingToRead, b)
      else read_loop n b [])"

subsection \<open>write\<close>

text \<open>
  The \<open>while\<close> loop of \<open>write\<close>. Its state is the object and \<open>packetIndex\<close>. The
  test calls \<open>nextIndex(_writePtr)\<close> first; the body copies \<open>packets[packetIndex]\<close> to
  \<open>_writePtr\<close> and moves \<open>_writePtr\<close> on with a second call of \<open>nextIndex\<close>. The body
  does not change \<open>packetIndex\<close>. The first argument bounds the iterations as in
  \<open>read_loop\<close>.
\<close>

fun write_loop ::
  "nat \<Rightarrow> CircularBuffer \<Rightarrow> packet list \<Rightarrow> size_t \<Rightarrow> ((error + size_t) \<times> CircularBuffer) option" where
  "write_loop 0 b packets packetIndex =
     (case nextIndex b (writePtr b) of
        Inl e \<Rightarrow> Some (Inl e, b)
      | Inr i \<Rightarrow>
          if readPtr b \<noteq> i \<and> unat packetIndex < length packets
          then None else Some (Inr packetIndex, b))"
| "write_loop (Suc n) b packets packetIndex =
     (case nextIndex b (writePtr b) of
        Inl e \<Rightarrow> Some (Inl e, b)
      | Inr i \<Rightarrow>
          if readPtr b \<noteq> i \<and> unat packetIndex < length packets
          then (let b1 = b\<lparr>buffer := memcpy_to (buffer b) (writePtr b)
                                        (packets ! unat packetIndex) (packetSize b)\<rparr>
                in case nextIndex b1 (writePtr b1) of
                     Inl e \<Rightarrow> Some (Inl e, b1)
                   | Inr j \<Rightarrow> write_loop n (b1\<lparr>writePtr := j\<rparr>) packets packetIndex)
          else Some (Inr packetIndex, b))"

text \<open>
  \<open>write\<close> (here \<open>write_packets\<close>, since \<open>write\<close> is a command of the
  theory language) returns the \<open>ssize_t\<close> it computes (the signed reading of \<open>packetIndex\<close>),
  the object, and the caller's vector, which it holds by reference and may shorten.
\<close>

definition write_packets ::
  "nat \<Rightarrow> CircularBuffer \<Rightarrow> packet list \<Rightarrow> bool \<Rightarrow> ((error + int) \<times> CircularBuffer \<times> packet list) option" where
  "write_packets n b packets removeWrittenPackets =
     (if packets = [] then Some (Inr 0, b, packets)
      else case canWriteNotThreadSafe b of
             Inl e \<Rightarrow> Some (Inl e, b, packets)
           | Inr can \<Rightarrow>
               if can = False then Some (Inl ErrorBufferBusy, b, packets)
               else case write_loop n b packets 0 of
                      None \<Rightarrow> None
                    | Some (Inl e, b') \<Rightarrow> Some (Inl e, b', packets)
                    | Some (Inr packetIndex, b') \<Rightarrow>
                        Some (Inr (sint packetIndex), b',
                              if removeWrittenPackets then drop (unat packetIndex) packets
                              else packets))"

section \<open>The invariant and the queue a state stands for\<close>

text \<open>
  The invariant of the data model: \<open>sizeof(T)\<close> is not 0, there are at least two
  slots, the byte size \<open>_packetSize * _bufferSize\<close> did not wrap, the store has that
  many bytes, and both offsets are multiples of \<open>_packetSize\<close> below \<open>_rawBufferSize\<close>.
  The constructor establishes it when the product does not wrap, and not otherwise.
\<close>

definition buffer_inv :: "CircularBuffer \<Rightarrow> bool" where
  "buffer_inv b =
     (packetSize b \<noteq> 0 \<and> 1 < bufferSize b \<and>
      unat (packetSize b) * unat (bufferSize b) < 2 ^ 64 \<and>
      rawBufferSize b = packetSize b * bufferSize b \<and>
      length (buffer b) = unat (rawBufferSize b) \<and>
      unat (readPtr b) mod unat (packetSize b) = 0 \<and> readPtr b < rawBufferSize b \<and>
      unat (writePtr b) mod unat (packetSize b) = 0 \<and> writePtr b < rawBufferSize b)"

text \<open>A vector of \<open>T\<close> holds objects of \<open>sizeof(T)\<close> bytes each.\<close>

definition packets_ok :: "CircularBuffer \<Rightarrow> packet list \<Rightarrow> bool" where
  "packets_ok b packets = list_all (\<lambda>p. length p = unat (packetSize b)) packets"

text \<open>
  The slot an offset points at, the number of elements between \<open>_readPtr\<close> and
  \<open>_writePtr\<close> (cyclically), the number of slots a writer may still fill (one slot
  stays empty), the element stored in a slot, and the elements between the two
  offsets, oldest first.
\<close>

definition slot_of :: "CircularBuffer \<Rightarrow> size_t \<Rightarrow> nat" where
  "slot_of b off = unat off div unat (packetSize b)"

definition resident :: "CircularBuffer \<Rightarrow> nat" where
  "resident b =
     (slot_of b (writePtr b) + unat (bufferSize b) - slot_of b (readPtr b)) mod unat (bufferSize b)"

definition free_slots :: "CircularBuffer \<Rightarrow> nat" where
  "free_slots b = unat (bufferSize b) - 1 - resident b"

definition element_at :: "CircularBuffer \<Rightarrow> nat \<Rightarrow> packet" where
  "element_at b k =
     take (unat (packetSize b)) (drop (k * unat (packetSize b)) (buffer b))"

definition queued :: "CircularBuffer \<Rightarrow> packet list" where
  "queued b =
     map (\<lambda>j. element_at b ((slot_of b (readPtr b) + j) mod unat (bufferSize b)))
       [0..<resident b]"

text \<open>
  The offset \<open>nextIndex\<close> returns when it returns.
\<close>

definition next_offset :: "CircularBuffer \<Rightarrow> size_t \<Rightarrow> size_t" where
  "next_offset b index = (index + packetSize b) mod rawBufferSize b"

subsection \<open>Reachable states\<close>

text \<open>
  The states an object of element size \<open>sizeof_T\<close> constructed with \<open>c\<close> slots can be
  in: the one the constructor leaves, and every state a call of \<open>read\<close> or \<open>write\<close>
  leaves. (\<open>canRead\<close> and \<open>canWrite\<close> do not change the state.)
\<close>

inductive reachable :: "size_t \<Rightarrow> size_t \<Rightarrow> CircularBuffer \<Rightarrow> bool" where
  constructed:
    "new_CircularBuffer alloc sizeof_T c = Inr b \<Longrightarrow> reachable sizeof_T c b"
| after_read:
    "reachable sizeof_T c b \<Longrightarrow> read n b = Some (res, b') \<Longrightarrow> reachable sizeof_T c b'"
| after_write:
    "reachable sizeof_T c b \<Longrightarrow> packets_ok b packets \<Longrightarrow>
     write_packets n b packets removeWrittenPackets = Some (res, b', packets') \<Longrightarrow>
     reachable sizeof_T c b'"

subsection \<open>Free stores for the examples\<close>

text \<open>
  A free store with \<open>avail\<close> bytes left, all of them zero: a request for more fails.
\<close>

definition zero_heap :: "nat \<Rightarrow> byte" where
  "zero_heap i = 0"

definition heap_alloc :: "nat \<Rightarrow> nat \<Rightarrow> (nat \<Rightarrow> byte) option" where
  "heap_alloc avail n = (if n \<le> avail then Some zero_heap else None)"

section \<open>Arithmetic on slots\<close>

text \<open>
  Facts about distances on a cycle of \<open>c\<close> slots, with \<open>r\<close> the slot read next and
  \<open>w\<close> the slot written next.
\<close>

lemma cyc_dist:
  fixes r w c :: nat
  assumes "r < c" "w < c"
  shows "(w + c - r) mod c = (if r \<le> w then w - r else w + c - r)"
proof (cases "r \<le> w")
  case True
  then have "w + c - r = (w - r) + c" by arith
  then have "(w + c - r) mod c = (w - r) mod c" by (metis mod_add_self2)
  also have "\<dots> = w - r" using assms by simp
  finally show ?thesis using True by simp
next
  case False
  then have "w + c - r < c" using assms by arith
  then show ?thesis using False by simp
qed

lemma Suc_mod_cases:
  fixes w c :: nat
  assumes "w < c"
  shows "Suc w mod c = (if Suc w = c then 0 else Suc w)"
  using assms by (auto simp: mod_Suc)

lemma cyc_pred:
  fixes r w c :: nat
  assumes "r < c" "w < c" "r \<noteq> w"
  shows "(w + c - (Suc r mod c)) mod c = (w + c - r) mod c - 1"
proof -
  have "Suc r mod c < c" using assms by simp
  then show ?thesis
    using assms by (auto simp: cyc_dist [OF _ \<open>w < c\<close>] Suc_mod_cases)
qed

lemma cyc_zero:
  fixes r w c :: nat
  assumes "r < c" "w < c"
  shows "((w + c - r) mod c = 0) = (r = w)"
  using assms by (auto simp: cyc_dist)

lemma cyc_end:
  fixes r w c :: nat
  assumes "r < c" "w < c"
  shows "(r + (w + c - r) mod c) mod c = w"
proof (cases "r \<le> w")
  case True
  then show ?thesis using assms by (simp add: cyc_dist)
next
  case False
  then have "r + (w + c - r) = w + c" using assms by arith
  then show ?thesis using False assms by (simp add: cyc_dist)
qed

lemma cyc_before:
  fixes r w c j :: nat
  assumes "r < c" "w < c" "j < (w + c - r) mod c"
  shows "(r + j) mod c \<noteq> w"
proof (cases "r + j < c")
  case True
  then show ?thesis using assms by (simp add: cyc_dist split: if_splits)
next
  case False
  then have "r + j = (r + j - c) + c" by arith
  then have "(r + j) mod c = (r + j - c) mod c" by (metis mod_add_self2)
  moreover have "r + j - c < w" using assms False by (simp add: cyc_dist split: if_splits)
  ultimately show ?thesis using assms by simp
qed

lemma cyc_succ:
  fixes r w c :: nat
  assumes "r < c" "w < c" "Suc w mod c \<noteq> r"
  shows "(Suc w mod c + c - r) mod c = Suc ((w + c - r) mod c)"
proof -
  have "Suc w mod c < c" using assms by simp
  then show ?thesis
    using assms by (auto simp: cyc_dist [OF \<open>r < c\<close>] Suc_mod_cases split: if_splits)
qed

lemma cyc_full:
  fixes r w c :: nat
  assumes "r < c" "w < c" "1 < c"
  shows "(Suc w mod c = r) = ((w + c - r) mod c = c - 1)"
  using assms by (auto simp: cyc_dist Suc_mod_cases)

section \<open>Offsets and slots\<close>

text \<open>
  Under the invariant the word arithmetic of \<open>next_offset\<close> does not wrap: an offset is
  its slot times \<open>_packetSize\<close>, and \<open>next_offset\<close> moves to the next slot modulo
  \<open>_bufferSize\<close>.
\<close>

lemma inv_sizes:
  assumes "buffer_inv b"
  shows "0 < unat (packetSize b)" and "1 < unat (bufferSize b)"
    and "unat (rawBufferSize b) = unat (packetSize b) * unat (bufferSize b)"
    and "length (buffer b) = unat (packetSize b) * unat (bufferSize b)"
proof -
  show "0 < unat (packetSize b)"
    using assms by (simp add: buffer_inv_def unat_gt_0)
  have "unat (1 :: size_t) < unat (bufferSize b)"
    using assms unfolding buffer_inv_def word_less_nat_alt by blast
  then show "1 < unat (bufferSize b)" by simp
  have "unat (packetSize b * bufferSize b) = unat (packetSize b) * unat (bufferSize b)"
    using assms by (simp add: buffer_inv_def unat_mult_lem [THEN iffD1])
  then show raw: "unat (rawBufferSize b) = unat (packetSize b) * unat (bufferSize b)"
    using assms by (simp add: buffer_inv_def)
  show "length (buffer b) = unat (packetSize b) * unat (bufferSize b)"
    using assms raw by (simp add: buffer_inv_def)
qed

lemma off_slot:
  assumes "buffer_inv b" and "unat off mod unat (packetSize b) = 0" and "off < rawBufferSize b"
  shows "unat off = slot_of b off * unat (packetSize b)"
    and "slot_of b off < unat (bufferSize b)"
proof -
  show eq: "unat off = slot_of b off * unat (packetSize b)"
    using assms(2) by (simp add: slot_of_def mod_eq_0_iff_dvd)
  have "unat off < unat (packetSize b) * unat (bufferSize b)"
    using assms(3) inv_sizes(3) [OF assms(1)] by (simp add: word_less_nat_alt)
  then show "slot_of b off < unat (bufferSize b)"
    using inv_sizes(1) [OF assms(1)]
    by (simp add: slot_of_def div_less_iff_less_mult mult.commute)
qed

lemma slot_offset:
  assumes "buffer_inv b" and "unat off = k * unat (packetSize b)"
  shows "slot_of b off = k"
  using assms inv_sizes(1) [OF assms(1)] by (simp add: slot_of_def)

lemma next_offset_unat:
  assumes "buffer_inv b" and "unat off mod unat (packetSize b) = 0" and "off < rawBufferSize b"
  shows "unat (next_offset b off) = (Suc (slot_of b off) mod unat (bufferSize b)) * unat (packetSize b)"
proof -
  let ?ps = "unat (packetSize b)" and ?c = "unat (bufferSize b)" and ?k = "slot_of b off"
  note sz = inv_sizes [OF assms(1)]
  note sl = off_slot [OF assms]
  have "Suc ?k \<le> ?c" using sl(2) by simp
  then have "Suc ?k * ?ps \<le> ?c * ?ps" by (rule mult_le_mono1)
  then have le: "unat off + ?ps \<le> ?ps * ?c" using sl(1) by (simp add: mult.commute)
  then have "unat off + ?ps < 2 ^ LENGTH(64)"
    using assms(1) by (simp add: buffer_inv_def)
  then have "unat (off + packetSize b) = unat off + ?ps"
    by (simp add: unat_add_lem [THEN iffD1])
  moreover have "unat off + ?ps = Suc ?k * ?ps" using sl(1) by simp
  ultimately have "unat (off + packetSize b) = Suc ?k * ?ps" by (rule trans)
  moreover have "unat (rawBufferSize b) = ?c * ?ps" using sz(3) by (simp only: mult.commute)
  ultimately have "unat (next_offset b off) = (Suc ?k * ?ps) mod (?c * ?ps)"
    by (simp only: next_offset_def unat_mod)
  then show ?thesis by (simp add: mult_mod_left)
qed

lemma next_offset_inv:
  assumes "buffer_inv b" and "unat off mod unat (packetSize b) = 0" and "off < rawBufferSize b"
  shows "unat (next_offset b off) mod unat (packetSize b) = 0"
    and "next_offset b off < rawBufferSize b"
    and "slot_of b (next_offset b off) = Suc (slot_of b off) mod unat (bufferSize b)"
proof -
  note sz = inv_sizes [OF assms(1)]
  note nx = next_offset_unat [OF assms]
  show "unat (next_offset b off) mod unat (packetSize b) = 0" using nx by simp
  have "Suc (slot_of b off) mod unat (bufferSize b) < unat (bufferSize b)" using sz(2) by simp
  then have "unat (next_offset b off) < unat (bufferSize b) * unat (packetSize b)"
    using nx sz(1) by simp
  then show "next_offset b off < rawBufferSize b"
    using sz(3) by (simp add: word_less_nat_alt mult.commute)
  show "slot_of b (next_offset b off) = Suc (slot_of b off) mod unat (bufferSize b)"
    using nx by (rule slot_offset [OF assms(1)])
qed

lemma slot_eq_iff:
  assumes "buffer_inv b"
    and "unat x mod unat (packetSize b) = 0" and "x < rawBufferSize b"
    and "unat y mod unat (packetSize b) = 0" and "y < rawBufferSize b"
  shows "(slot_of b x = slot_of b y) = (x = y)"
proof
  assume "slot_of b x = slot_of b y"
  then have "unat x = unat y"
    using off_slot(1) [OF assms(1,2,3)] off_slot(1) [OF assms(1,4,5)] by simp
  then show "x = y" by (simp only: word_unat_eq_iff)
qed simp

lemma inv_raw_nonzero:
  assumes "buffer_inv b"
  shows "rawBufferSize b \<noteq> 0"
proof -
  have "0 < unat (packetSize b) * unat (bufferSize b)"
    using inv_sizes(1,2) [OF assms] by simp
  then have "unat (rawBufferSize b) \<noteq> 0" using inv_sizes(3) [OF assms] by simp
  then show ?thesis by (simp add: unat_eq_0)
qed

lemma nextIndex_returns:
  assumes "buffer_inv b"
  shows "nextIndex b index = Inr (next_offset b index)"
  using inv_raw_nonzero [OF assms] by (simp add: nextIndex_def next_offset_def)

lemma nextIndex_readPtr_update [simp]: "nextIndex (b\<lparr>readPtr := x\<rparr>) = nextIndex b"
  by (rule ext) (simp add: nextIndex_def)

lemma nextIndex_writePtr_update [simp]: "nextIndex (b\<lparr>writePtr := x\<rparr>) = nextIndex b"
  by (rule ext) (simp add: nextIndex_def)

lemma nextIndex_buffer_update [simp]: "nextIndex (b\<lparr>buffer := s\<rparr>) = nextIndex b"
  by (rule ext) (simp add: nextIndex_def)

section \<open>The loop of read\<close>

lemma inv_readPtr:
  assumes "buffer_inv b"
  shows "unat (readPtr b) mod unat (packetSize b) = 0" and "readPtr b < rawBufferSize b"
  using assms unfolding buffer_inv_def by blast+

lemma inv_writePtr:
  assumes "buffer_inv b"
  shows "unat (writePtr b) mod unat (packetSize b) = 0" and "writePtr b < rawBufferSize b"
  using assms unfolding buffer_inv_def by blast+

lemma inv_read_slot:
  assumes "buffer_inv b"
  shows "unat (readPtr b) = slot_of b (readPtr b) * unat (packetSize b)"
    and "slot_of b (readPtr b) < unat (bufferSize b)"
  by (rule off_slot [OF assms inv_readPtr [OF assms]])+

lemma inv_write_slot:
  assumes "buffer_inv b"
  shows "unat (writePtr b) = slot_of b (writePtr b) * unat (packetSize b)"
    and "slot_of b (writePtr b) < unat (bufferSize b)"
  by (rule off_slot [OF assms inv_writePtr [OF assms]])+

lemma resident_zero_iff:
  assumes "buffer_inv b"
  shows "(resident b = 0) = (readPtr b = writePtr b)"
proof -
  have "(resident b = 0) = (slot_of b (readPtr b) = slot_of b (writePtr b))"
    unfolding resident_def
    by (rule cyc_zero [OF inv_read_slot(2) [OF assms] inv_write_slot(2) [OF assms]])
  also have "\<dots> = (readPtr b = writePtr b)"
    by (rule slot_eq_iff [OF assms inv_readPtr [OF assms] inv_writePtr [OF assms]])
  finally show ?thesis .
qed

lemma resident_less:
  assumes "buffer_inv b"
  shows "resident b < unat (bufferSize b)"
  using inv_sizes(2) [OF assms] by (simp add: resident_def)

lemma read_step_inv:
  assumes "buffer_inv b"
  shows "buffer_inv (b\<lparr>readPtr := next_offset b (readPtr b)\<rparr>)"
  using assms next_offset_inv(1,2) [OF assms inv_readPtr [OF assms]]
  unfolding buffer_inv_def by auto

lemma read_step_resident:
  assumes "buffer_inv b" and "readPtr b \<noteq> writePtr b"
  shows "resident (b\<lparr>readPtr := next_offset b (readPtr b)\<rparr>) = resident b - 1"
proof -
  have ne: "slot_of b (readPtr b) \<noteq> slot_of b (writePtr b)"
    using assms(2) slot_eq_iff [OF assms(1) inv_readPtr [OF assms(1)] inv_writePtr [OF assms(1)]]
    by simp
  have nx: "slot_of b (next_offset b (readPtr b)) = Suc (slot_of b (readPtr b)) mod unat (bufferSize b)"
    by (rule next_offset_inv(3) [OF assms(1) inv_readPtr [OF assms(1)]])
  show ?thesis
    using cyc_pred [OF inv_read_slot(2) [OF assms(1)] inv_write_slot(2) [OF assms(1)] ne] nx
    by (simp add: resident_def slot_of_def)
qed

lemma memcpy_from_element:
  assumes "buffer_inv b"
  shows "memcpy_from (buffer b) (readPtr b) (packetSize b) = element_at b (slot_of b (readPtr b))"
  using inv_read_slot(1) [OF assms] by (simp add: memcpy_from_def element_at_def)

lemma map_upt_Suc_shift: "map f [0..<Suc m] = f 0 # map (\<lambda>j. f (Suc j)) [0..<m]"
  by (simp only: map_upt_Suc list.map) 

lemma read_step_queued:
  assumes "buffer_inv b" and "readPtr b \<noteq> writePtr b"
  shows "queued b = element_at b (slot_of b (readPtr b)) # queued (b\<lparr>readPtr := next_offset b (readPtr b)\<rparr>)"
proof -
  let ?c = "unat (bufferSize b)" and ?r = "slot_of b (readPtr b)"
  let ?b' = "b\<lparr>readPtr := next_offset b (readPtr b)\<rparr>"
  have pos: "resident b \<noteq> 0" using assms by (simp add: resident_zero_iff)
  then obtain m where m: "resident b = Suc m" by (cases "resident b") auto
  have res': "resident ?b' = m" using read_step_resident [OF assms] m by simp
  have nx: "slot_of b (next_offset b (readPtr b)) = Suc ?r mod ?c"
    by (rule next_offset_inv(3) [OF assms(1) inv_readPtr [OF assms(1)]])
  have el: "\<And>k. element_at ?b' k = element_at b k" by (simp add: element_at_def)
  have sl: "slot_of ?b' (next_offset b (readPtr b)) = Suc ?r mod ?c" using nx by (simp add: slot_of_def)
  have shift: "\<And>j. (Suc ?r mod ?c + j) mod ?c = Suc (?r + j) mod ?c"
    by (simp add: mod_add_left_eq)
  have "queued b = map (\<lambda>j. element_at b ((?r + j) mod ?c)) [0..<Suc m]"
    using m by (simp only: queued_def)
  also have "\<dots> = element_at b (?r mod ?c) # map (\<lambda>j. element_at b ((?r + Suc j) mod ?c)) [0..<m]"
    by (simp only: map_upt_Suc_shift add_0_right)
  also have "?r mod ?c = ?r" using inv_read_slot(2) [OF assms(1)] by simp
  also have "map (\<lambda>j. element_at b ((?r + Suc j) mod ?c)) [0..<m] = queued ?b'"
    by (simp add: queued_def res' sl el shift)
  finally show ?thesis .
qed

lemma read_loop_spec:
  assumes "buffer_inv b"
  shows "read_loop n b vs =
           (if resident b \<le> n then Some (Inr (vs @ queued b), b\<lparr>readPtr := writePtr b\<rparr>)
            else None)"
  using assms
proof (induction n arbitrary: b vs)
  case 0
  show ?case
  proof (cases "readPtr b = writePtr b")
    case True
    then have "resident b = 0" using 0 by (simp add: resident_zero_iff)
    moreover have "b\<lparr>readPtr := writePtr b\<rparr> = b" using True by simp
    ultimately show ?thesis using True by (simp add: queued_def)
  next
    case False
    then have "resident b \<noteq> 0" using 0 by (simp add: resident_zero_iff)
    then show ?thesis using False by simp
  qed
next
  case (Suc n)
  show ?case
  proof (cases "readPtr b = writePtr b")
    case True
    then have "resident b = 0" using Suc.prems by (simp add: resident_zero_iff)
    moreover have "b\<lparr>readPtr := writePtr b\<rparr> = b" using True by simp
    ultimately show ?thesis using True by (simp add: queued_def)
  next
    case False
    let ?b' = "b\<lparr>readPtr := next_offset b (readPtr b)\<rparr>"
    have pos: "resident b \<noteq> 0" using False Suc.prems by (simp add: resident_zero_iff)
    have ih: "read_loop n ?b' (vs @ [element_at b (slot_of b (readPtr b))]) =
           (if resident ?b' \<le> n
            then Some (Inr ((vs @ [element_at b (slot_of b (readPtr b))]) @ queued ?b'),
                       ?b'\<lparr>readPtr := writePtr ?b'\<rparr>)
            else None)"
      by (rule Suc.IH [OF read_step_inv [OF Suc.prems]])
    have "read_loop (Suc n) b vs = read_loop n ?b' (vs @ [element_at b (slot_of b (readPtr b))])"
      using False
      by (simp add: memcpy_from_element [OF Suc.prems] nextIndex_returns [OF Suc.prems])
    also note ih
    finally show ?thesis
      using pos read_step_resident [OF Suc.prems False] read_step_queued [OF Suc.prems False]
      by auto
  qed
qed

section \<open>The loop of write\<close>

text \<open>
  Storing an element in one slot leaves the other slots as they were.
\<close>

lemma slot_bounds:
  fixes j c ps :: nat
  assumes "j < c"
  shows "j * ps + ps \<le> ps * c" and "j * ps \<le> ps * c"
proof -
  have "Suc j * ps \<le> c * ps" using assms by (intro mult_le_mono1) simp
  then show le: "j * ps + ps \<le> ps * c" by (simp add: mult.commute)
  show "j * ps \<le> ps * c" using le by arith
qed

lemma slot_order:
  fixes j k ps :: nat
  assumes "k < j"
  shows "k * ps + ps \<le> j * ps"
proof -
  have "Suc k * ps \<le> j * ps" using assms by (intro mult_le_mono1) simp
  then show ?thesis by simp
qed

lemma element_store:
  fixes j k c ps :: nat
  assumes "j < c" and "k < c" and "length store = ps * c" and "length x = ps"
  shows "take ps (drop (k * ps) (take (j * ps) store @ take ps x @ drop (j * ps + ps) store)) =
           (if k = j then x else take ps (drop (k * ps) store))"
proof -
  note bj = slot_bounds [OF assms(1), of ps]
  note bk = slot_bounds [OF assms(2), of ps]
  consider "k = j" | "k < j" | "j < k" by arith
  then show ?thesis
  proof cases
    case 1
    then show ?thesis using assms bj by simp
  next
    case 2
    note o = slot_order [OF 2, of ps]
    have "take ps (drop (k * ps) (take (j * ps) store)) = take ps (drop (k * ps) store)"
      using o by (simp add: drop_take min_def)
    then show ?thesis using 2 assms bj o by simp
  next
    case 3
    note o = slot_order [OF 3, of ps]
    have "k * ps - j * ps - ps + (j * ps + ps) = k * ps" using o by arith
    then show ?thesis using 3 assms bj o by (simp add: add.commute)
  qed
qed

lemma store_length:
  fixes j c ps :: nat
  assumes "j < c" and "length store = ps * c" and "length x = ps"
  shows "length (take (j * ps) store @ take ps x @ drop (j * ps + ps) store) = ps * c"
  using assms slot_bounds [OF assms(1), of ps] by simp

lemma memcpy_to_slot:
  assumes "buffer_inv b"
  shows "memcpy_to (buffer b) (writePtr b) x (packetSize b) =
           take (slot_of b (writePtr b) * unat (packetSize b)) (buffer b) @
           take (unat (packetSize b)) x @
           drop (slot_of b (writePtr b) * unat (packetSize b) + unat (packetSize b)) (buffer b)"
  using inv_write_slot(1) [OF assms] by (simp add: memcpy_to_def)

lemma write_step_inv:
  assumes "buffer_inv b" and "length x = unat (packetSize b)"
  shows "buffer_inv (b\<lparr>buffer := memcpy_to (buffer b) (writePtr b) x (packetSize b),
                        writePtr := next_offset b (writePtr b)\<rparr>)"
proof -
  have len: "length (memcpy_to (buffer b) (writePtr b) x (packetSize b)) = length (buffer b)"
    unfolding memcpy_to_slot [OF assms(1)]
    using store_length [OF inv_write_slot(2) [OF assms(1)] inv_sizes(4) [OF assms(1)] assms(2)]
      inv_sizes(4) [OF assms(1)]
    by simp
  show ?thesis
    using assms(1) next_offset_inv(1,2) [OF assms(1) inv_writePtr [OF assms(1)]] len
    unfolding buffer_inv_def by auto
qed

lemma full_iff:
  assumes "buffer_inv b"
  shows "(next_offset b (writePtr b) = readPtr b) = (free_slots b = 0)"
proof -
  note nx = next_offset_inv [OF assms inv_writePtr [OF assms]]
  have "(next_offset b (writePtr b) = readPtr b) =
          (slot_of b (next_offset b (writePtr b)) = slot_of b (readPtr b))"
    by (rule slot_eq_iff [OF assms nx(1,2) inv_readPtr [OF assms], symmetric])
  also have "\<dots> = (Suc (slot_of b (writePtr b)) mod unat (bufferSize b) = slot_of b (readPtr b))"
    by (simp only: nx(3))
  also have "\<dots> = (resident b = unat (bufferSize b) - 1)"
    unfolding resident_def
    by (rule cyc_full [OF inv_read_slot(2) [OF assms] inv_write_slot(2) [OF assms] inv_sizes(2) [OF assms]])
  also have "\<dots> = (free_slots b = 0)"
    using resident_less [OF assms] by (auto simp: free_slots_def)
  finally show ?thesis .
qed

lemma write_step_resident:
  assumes "buffer_inv b" and "next_offset b (writePtr b) \<noteq> readPtr b"
  shows "resident (b\<lparr>buffer := store, writePtr := next_offset b (writePtr b)\<rparr>) = Suc (resident b)"
proof -
  note nx = next_offset_inv [OF assms(1) inv_writePtr [OF assms(1)]]
  have ne: "Suc (slot_of b (writePtr b)) mod unat (bufferSize b) \<noteq> slot_of b (readPtr b)"
    using assms(2) slot_eq_iff [OF assms(1) nx(1,2) inv_readPtr [OF assms(1)]] nx(3) by simp
  show ?thesis
    using cyc_succ [OF inv_read_slot(2) [OF assms(1)] inv_write_slot(2) [OF assms(1)] ne] nx(3)
    by (simp add: resident_def slot_of_def)
qed

lemma write_step_element:
  assumes "buffer_inv b" and "length x = unat (packetSize b)" and "k < unat (bufferSize b)"
  shows "element_at (b\<lparr>buffer := memcpy_to (buffer b) (writePtr b) x (packetSize b),
                         writePtr := w'\<rparr>) k =
           (if k = slot_of b (writePtr b) then x else element_at b k)"
  using element_store [OF inv_write_slot(2) [OF assms(1)] assms(3) inv_sizes(4) [OF assms(1)] assms(2)]
  by (simp add: element_at_def memcpy_to_slot [OF assms(1)])

lemma write_step_queued:
  assumes "buffer_inv b" and "length x = unat (packetSize b)"
    and "next_offset b (writePtr b) \<noteq> readPtr b"
  shows "queued (b\<lparr>buffer := memcpy_to (buffer b) (writePtr b) x (packetSize b),
                    writePtr := next_offset b (writePtr b)\<rparr>) = queued b @ [x]"
proof -
  let ?c = "unat (bufferSize b)" and ?r = "slot_of b (readPtr b)" and ?w = "slot_of b (writePtr b)"
  let ?b' = "b\<lparr>buffer := memcpy_to (buffer b) (writePtr b) x (packetSize b),
                writePtr := next_offset b (writePtr b)\<rparr>"
  note r = inv_read_slot(2) [OF assms(1)] and w = inv_write_slot(2) [OF assms(1)]
  have c: "0 < ?c" using inv_sizes(2) [OF assms(1)] by simp
  have res: "resident ?b' = Suc (resident b)"
    by (rule write_step_resident [OF assms(1,3)])
  have sl: "slot_of ?b' (readPtr b) = ?r" by (simp add: slot_of_def)
  have el: "\<And>k. k < ?c \<Longrightarrow> element_at ?b' k = (if k = ?w then x else element_at b k)"
    by (rule write_step_element [OF assms(1,2)])
  have last: "element_at ?b' ((?r + resident b) mod ?c) = x"
    using el [OF w] cyc_end [OF r w]
    by (simp add: resident_def)
  have old: "\<And>j. j < resident b \<Longrightarrow>
               element_at ?b' ((?r + j) mod ?c) = element_at b ((?r + j) mod ?c)"
  proof -
    fix j assume "j < resident b"
    then have "(?r + j) mod ?c \<noteq> ?w"
      unfolding resident_def by (rule cyc_before [OF r w])
    then show "element_at ?b' ((?r + j) mod ?c) = element_at b ((?r + j) mod ?c)"
      using el [of "(?r + j) mod ?c"] c by simp
  qed
  have "queued ?b' = map (\<lambda>j. element_at ?b' ((?r + j) mod ?c)) [0..<Suc (resident b)]"
    using res sl by (simp add: queued_def)
  also have "\<dots> = map (\<lambda>j. element_at ?b' ((?r + j) mod ?c)) [0..<resident b] @ [x]"
    using last by simp
  also have "map (\<lambda>j. element_at ?b' ((?r + j) mod ?c)) [0..<resident b] = queued b"
    unfolding queued_def using old by (intro map_cong) auto
  finally show ?thesis .
qed

lemma write_step_free:
  assumes "buffer_inv b" and "next_offset b (writePtr b) \<noteq> readPtr b"
  shows "free_slots (b\<lparr>buffer := store, writePtr := next_offset b (writePtr b)\<rparr>) = free_slots b - 1"
  using write_step_resident [OF assms, of store] by (simp add: free_slots_def)

lemma write_loop_spec:
  assumes "buffer_inv b" and "unat packetIndex < length packets"
    and "length (packets ! unat packetIndex) = unat (packetSize b)"
  shows "(n < free_slots b \<longrightarrow> write_loop n b packets packetIndex = None) \<and>
         (free_slots b \<le> n \<longrightarrow>
            (\<exists>b'. write_loop n b packets packetIndex = Some (Inr packetIndex, b') \<and>
                  buffer_inv b' \<and> packetSize b' = packetSize b \<and> bufferSize b' = bufferSize b \<and>
                  rawBufferSize b' = rawBufferSize b \<and> readPtr b' = readPtr b \<and>
                  free_slots b' = 0 \<and>
                  queued b' = queued b @ replicate (free_slots b) (packets ! unat packetIndex)))"
  using assms
proof (induction n arbitrary: b)
  case 0
  have "(readPtr b \<noteq> next_offset b (writePtr b)) = (free_slots b \<noteq> 0)"
    using full_iff [OF "0.prems"(1)] by auto
  then show ?case using 0 by (auto simp: nextIndex_returns)
next
  case (Suc n)
  let ?x = "packets ! unat packetIndex"
  let ?b' = "b\<lparr>buffer := memcpy_to (buffer b) (writePtr b) ?x (packetSize b),
                writePtr := next_offset b (writePtr b)\<rparr>"
  show ?case
  proof (cases "readPtr b \<noteq> next_offset b (writePtr b)")
    case False
    then have "free_slots b = 0" using full_iff [OF Suc.prems(1)] by auto
    then show ?thesis using False Suc.prems by (auto simp: nextIndex_returns)
  next
    case True
    then have ne: "next_offset b (writePtr b) \<noteq> readPtr b" by auto
    then have pos: "free_slots b \<noteq> 0" using full_iff [OF Suc.prems(1)] by auto
    have inv': "buffer_inv ?b'" by (rule write_step_inv [OF Suc.prems(1,3)])
    have free': "free_slots ?b' = free_slots b - 1" by (rule write_step_free [OF Suc.prems(1) ne])
    have q': "queued ?b' = queued b @ [?x]" by (rule write_step_queued [OF Suc.prems(1,3) ne])
    have len': "length ?x = unat (packetSize ?b')" using Suc.prems(3) by simp
    note ih = Suc.IH [OF inv' Suc.prems(2) len']
    have step: "write_loop (Suc n) b packets packetIndex = write_loop n ?b' packets packetIndex"
      using True Suc.prems(2) by (simp add: nextIndex_returns [OF Suc.prems(1)] Let_def)
    have rep: "[?x] @ replicate (free_slots b - 1) ?x = replicate (free_slots b) ?x"
      using pos by (cases "free_slots b") simp_all
    show ?thesis
    proof (intro conjI impI)
      assume "Suc n < free_slots b"
      then have "n < free_slots ?b'" using free' by simp
      then show "write_loop (Suc n) b packets packetIndex = None" using ih step by simp
    next
      assume "free_slots b \<le> Suc n"
      then have "free_slots ?b' \<le> n" using free' by simp
      then obtain b'' where b'': "write_loop n ?b' packets packetIndex = Some (Inr packetIndex, b'')"
        "buffer_inv b''" "packetSize b'' = packetSize ?b'" "bufferSize b'' = bufferSize ?b'"
        "rawBufferSize b'' = rawBufferSize ?b'" "readPtr b'' = readPtr ?b'" "free_slots b'' = 0"
        "queued b'' = queued ?b' @ replicate (free_slots ?b') ?x"
        using ih by blast
      have "queued b'' = queued b @ replicate (free_slots b) ?x"
        using b''(8) q' free' rep by simp
      then show "\<exists>b'. write_loop (Suc n) b packets packetIndex = Some (Inr packetIndex, b') \<and>
                  buffer_inv b' \<and> packetSize b' = packetSize b \<and> bufferSize b' = bufferSize b \<and>
                  rawBufferSize b' = rawBufferSize b \<and> readPtr b' = readPtr b \<and>
                  free_slots b' = 0 \<and>
                  queued b' = queued b @ replicate (free_slots b) ?x"
        using b'' step by simp
    qed
  qed
qed

section \<open>read and write as a whole\<close>


lemma resident_free:
  assumes "buffer_inv b"
  shows "resident b + free_slots b = unat (bufferSize b) - 1"
  using resident_less [OF assms] by (simp add: free_slots_def)

lemma new_CircularBuffer_inv:
  assumes "new_CircularBuffer alloc sizeof_T c = Inr b" and "sizeof_T \<noteq> 0"
    and "unat sizeof_T * unat c < 2 ^ 64"
  shows "buffer_inv b" and "bufferSize b = c" and "readPtr b = 0" and "writePtr b = 0"
proof -
  obtain heap where b: "b = \<lparr> packetSize = sizeof_T, bufferSize = c, rawBufferSize = sizeof_T * c,
                  buffer = map heap [0..<unat (sizeof_T * c)], readPtr = 0, writePtr = 0 \<rparr>"
    and c: "1 < c"
    using assms(1)
    by (auto simp: new_CircularBuffer_def Let_def split: option.splits if_splits)
  have "c \<noteq> 0" using c by auto
  then have "0 < unat sizeof_T * unat c" using assms(2) by (simp add: unat_gt_0)
  moreover have "unat (sizeof_T * c) = unat sizeof_T * unat c"
    using assms(3) by (simp add: unat_mult_lem [THEN iffD1])
  ultimately have "0 < unat (sizeof_T * c)" by simp
  then have "0 < sizeof_T * c" by (simp add: word_less_nat_alt)
  then show "buffer_inv b" using c assms(2,3) by (simp add: b buffer_inv_def)
  show "bufferSize b = c" "readPtr b = 0" "writePtr b = 0" by (simp_all add: b)
qed

lemma drained_inv:
  assumes "buffer_inv b"
  shows "buffer_inv (b\<lparr>readPtr := writePtr b\<rparr>)"
  using assms unfolding buffer_inv_def by auto

lemma read_spec:
  assumes "buffer_inv b"
  shows "read n b =
           (if readPtr b = writePtr b then Some (Inl ErrorNothingToRead, b)
            else if resident b \<le> n then Some (Inr (queued b), b\<lparr>readPtr := writePtr b\<rparr>)
            else None)"
  by (simp add: read_def canReadNotThreadSafe_def read_loop_spec [OF assms])

lemma read_inv:
  assumes "buffer_inv b" and "read n b = Some (res, b')"
  shows "buffer_inv b'" and "bufferSize b' = bufferSize b" and "packetSize b' = packetSize b"
  using assms drained_inv [OF assms(1)]
  by (auto simp: read_spec [OF assms(1)] split: if_splits)

lemma packets_ok_nth:
  assumes "packets_ok b packets" and "i < length packets"
  shows "length (packets ! i) = unat (packetSize b)"
  using assms by (simp add: packets_ok_def list_all_length)

lemma canWrite_inv:
  assumes "buffer_inv b"
  shows "canWriteNotThreadSafe b = Inr (next_offset b (writePtr b) \<noteq> readPtr b)"
  by (simp add: canWriteNotThreadSafe_def nextIndex_returns [OF assms])

lemma write_packets_spec:
  assumes "buffer_inv b" and "packets_ok b packets" and "packets \<noteq> []"
    and "next_offset b (writePtr b) \<noteq> readPtr b"
  shows "(n < free_slots b \<longrightarrow> write_packets n b packets removeWrittenPackets = None) \<and>
         (free_slots b \<le> n \<longrightarrow>
            (\<exists>b'. write_packets n b packets removeWrittenPackets = Some (Inr 0, b', packets) \<and>
                  buffer_inv b' \<and> bufferSize b' = bufferSize b \<and>
                  packetSize b' = packetSize b \<and> readPtr b' = readPtr b \<and>
                  free_slots b' = 0 \<and>
                  queued b' = queued b @ replicate (free_slots b) (packets ! 0)))"
proof -
  have i: "unat (0 :: size_t) < length packets" using assms(3) by simp
  have l: "length (packets ! unat (0 :: size_t)) = unat (packetSize b)"
    using packets_ok_nth [OF assms(2) i] .
  note loop = write_loop_spec [OF assms(1) i l, of n]
  show ?thesis
  proof (intro conjI impI)
    assume "n < free_slots b"
    then have "write_loop n b packets 0 = None" using loop by simp
    then show "write_packets n b packets removeWrittenPackets = None"
      using assms(3,4) by (simp add: write_packets_def canWrite_inv [OF assms(1)])
  next
    assume "free_slots b \<le> n"
    then obtain b' where b': "write_loop n b packets 0 = Some (Inr 0, b')"
      "buffer_inv b'" "bufferSize b' = bufferSize b" "packetSize b' = packetSize b"
      "readPtr b' = readPtr b" "free_slots b' = 0"
      "queued b' = queued b @ replicate (free_slots b) (packets ! unat (0 :: size_t))"
      using loop by blast
    have "write_packets n b packets removeWrittenPackets = Some (Inr 0, b', packets)"
      using assms(3,4) b'(1) by (simp add: write_packets_def canWrite_inv [OF assms(1)])
    then show "\<exists>b'. write_packets n b packets removeWrittenPackets = Some (Inr 0, b', packets) \<and>
                  buffer_inv b' \<and> bufferSize b' = bufferSize b \<and>
                  packetSize b' = packetSize b \<and> readPtr b' = readPtr b \<and>
                  free_slots b' = 0 \<and>
                  queued b' = queued b @ replicate (free_slots b) (packets ! 0)"
      using b' by simp
  qed
qed

lemma write_packets_busy:
  assumes "buffer_inv b" and "packets \<noteq> []" and "next_offset b (writePtr b) = readPtr b"
  shows "write_packets n b packets removeWrittenPackets = Some (Inl ErrorBufferBusy, b, packets)"
  using assms(2,3) by (simp add: write_packets_def canWrite_inv [OF assms(1)])

lemma write_packets_inv:
  assumes "buffer_inv b" and "packets_ok b packets"
    and "write_packets n b packets removeWrittenPackets = Some (res, b', packets')"
  shows "buffer_inv b'" and "bufferSize b' = bufferSize b" and "packetSize b' = packetSize b"
proof -
  have "buffer_inv b' \<and> bufferSize b' = bufferSize b \<and> packetSize b' = packetSize b"
  proof (cases "packets = []")
    case True
    then have "b' = b" using assms(3) by (simp add: write_packets_def)
    then show ?thesis using assms(1) by simp
  next
    case ne: False
    show ?thesis
    proof (cases "next_offset b (writePtr b) = readPtr b")
      case True
      then have "b' = b" using assms(3) write_packets_busy [OF assms(1) ne True] by simp
      then show ?thesis using assms(1) by simp
    next
      case False
      note sp = write_packets_spec [OF assms(1,2) ne False, of n removeWrittenPackets]
      have "free_slots b \<le> n" using sp assms(3) by (cases "n < free_slots b") auto
      then show ?thesis using sp assms(3) by auto
    qed
  qed
  then show "buffer_inv b'" and "bufferSize b' = bufferSize b" and "packetSize b' = packetSize b"
    by simp_all
qed

text \<open>
  When the byte size does not wrap (and \<open>sizeof(T)\<close> is not 0, as in C++), every
  reachable state satisfies the invariant.
\<close>

lemma reachable_inv:
  assumes "reachable sizeof_T c b" and "sizeof_T \<noteq> 0" and "unat sizeof_T * unat c < 2 ^ 64"
  shows "buffer_inv b \<and> bufferSize b = c"
  using assms
proof (induction rule: reachable.induct)
  case (constructed alloc sizeof_T c b)
  then show ?case using new_CircularBuffer_inv(1,2) by blast
next
  case (after_read sizeof_T c b n res b')
  then show ?case using read_inv(1,2) by metis
next
  case (after_write sizeof_T c b packets n removeWrittenPackets res b' packets')
  then show ?case using write_packets_inv(1,2) by metis
qed

section \<open>Properties that hold in every state\<close>

text \<open>
  What the two queries compute, in every state: \<open>canRead()\<close> compares the offsets;
  \<open>canWrite()\<close> compares \<open>_readPtr\<close> with the offset after \<open>_writePtr\<close> when
  \<open>_rawBufferSize\<close> is not 0, and divides by zero when it is. Neither changes the object.
\<close>

lemma canRead_canWrite_values:
  "canRead b = (readPtr b \<noteq> writePtr b, b) \<and>
   canWrite b =
     (if rawBufferSize b = 0 then Inl DivisionByZero
      else Inr ((writePtr b + packetSize b) mod rawBufferSize b \<noteq> readPtr b), b)"
  by (simp add: canRead_def canWrite_def canReadNotThreadSafe_def canWriteNotThreadSafe_def
      nextIndex_def)

text \<open>
  C6. The specification has \<open>canWrite()\<close> answer in every state whether the offset after
  \<open>_writePtr\<close> differs from \<open>_readPtr\<close>. The constructor accepts \<open>sizeof(T) = 4\<close> with
  \<open>2 ^ 62\<close> slots, where \<open>_packetSize * _bufferSize\<close> wraps to 0; on that object
  \<open>canWrite()\<close> divides by zero in \<open>nextIndex\<close> and gives no answer.
\<close>

theorem canWrite_divides_by_zero:
  "new_CircularBuffer (heap_alloc 4096) 4 4611686018427387904 =
     Inr \<lparr>packetSize = 4, bufferSize = 4611686018427387904, rawBufferSize = 0, buffer = [],
          readPtr = 0, writePtr = 0\<rparr> \<and>
   canWrite \<lparr>packetSize = 4, bufferSize = 4611686018427387904, rawBufferSize = 0, buffer = [],
             readPtr = 0, writePtr = 0\<rparr> =
     (Inl DivisionByZero,
      \<lparr>packetSize = 4, bufferSize = 4611686018427387904, rawBufferSize = 0, buffer = [],
       readPtr = 0, writePtr = 0\<rparr>)"
  by (simp add: new_CircularBuffer_def heap_alloc_def canWrite_def canWriteNotThreadSafe_def
      nextIndex_def)

text \<open>
  C4. When the two offsets are equal, \<open>read\<close> throws \<open>ErrorNothingToRead\<close> before its
  loop, whatever the iteration bound, and the object (offsets and stored bytes) is
  unchanged.
\<close>

theorem read_empty_fails:
  assumes "readPtr b = writePtr b"
  shows "read n b = Some (Inl ErrorNothingToRead, b)"
  using assms by (simp add: read_def canReadNotThreadSafe_def)

theorem read_empty_fails_witness:
  "readPtr \<lparr> packetSize = 1, bufferSize = 3, rawBufferSize = 3, buffer = [7, 8, 9],
             readPtr = 2, writePtr = 2 \<rparr>
     = writePtr \<lparr> packetSize = 1, bufferSize = 3, rawBufferSize = 3, buffer = [7, 8, 9],
             readPtr = 2, writePtr = 2 \<rparr> \<and>
   read 0 \<lparr> packetSize = 1, bufferSize = 3, rawBufferSize = 3, buffer = [7, 8, 9],
             readPtr = 2, writePtr = 2 \<rparr>
     = Some (Inl ErrorNothingToRead,
             \<lparr> packetSize = 1, bufferSize = 3, rawBufferSize = 3, buffer = [7, 8, 9],
               readPtr = 2, writePtr = 2 \<rparr>)"
  using read_empty_fails [of "\<lparr> packetSize = 1, bufferSize = 3, rawBufferSize = 3,
    buffer = [7, 8, 9], readPtr = 2, writePtr = 2 \<rparr>" 0]
  by simp

text \<open>
  C5. When the offset after \<open>_writePtr\<close> is \<open>_readPtr\<close> and the caller's vector is not
  empty, \<open>write\<close> throws \<open>ErrorBufferBusy\<close> before its loop; the object and the
  caller's vector are unchanged, with either value of the removal flag.
\<close>

theorem write_full_fails:
  assumes "nextIndex b (writePtr b) = Inr (readPtr b)" and "packets \<noteq> []"
  shows "write_packets n b packets removeWrittenPackets = Some (Inl ErrorBufferBusy, b, packets)"
  using assms by (simp add: write_packets_def canWriteNotThreadSafe_def)

theorem write_full_fails_witness:
  "nextIndex \<lparr> packetSize = 1, bufferSize = 2, rawBufferSize = 2, buffer = [7, 8],
               readPtr = 0, writePtr = 1 \<rparr> 1 = Inr 0 \<and> [[5]] \<noteq> ([] :: packet list) \<and>
   write_packets 0 \<lparr> packetSize = 1, bufferSize = 2, rawBufferSize = 2, buffer = [7, 8],
              readPtr = 0, writePtr = 1 \<rparr> [[5]] True
     = Some (Inl ErrorBufferBusy,
             \<lparr> packetSize = 1, bufferSize = 2, rawBufferSize = 2, buffer = [7, 8],
               readPtr = 0, writePtr = 1 \<rparr>, [[5]])"
  using write_full_fails [of "\<lparr> packetSize = 1, bufferSize = 2, rawBufferSize = 2,
    buffer = [7, 8], readPtr = 0, writePtr = 1 \<rparr>" "[[5]]" 0 True]
  by (simp add: nextIndex_def)

text \<open>
  C10. With an empty vector \<open>write\<close> returns 0 at its first test, before it looks at
  the offsets: in every state, full or not, no exception is thrown and the object and
  the vector are unchanged.
\<close>

theorem write_empty_input:
  "write_packets n b [] removeWrittenPackets = Some (Inr 0, b, [])"
  by (simp add: write_packets_def)

section \<open>Properties of constructed objects\<close>

text \<open>
  When the byte size does not wrap, both offsets of a constructed object stay multiples
  of \<open>_packetSize\<close> below \<open>_rawBufferSize\<close>.
\<close>

lemma cursors_no_wrap:
  assumes "reachable sizeof_T c b" and "sizeof_T \<noteq> 0" and "unat sizeof_T * unat c < 2 ^ 64"
  shows "unat (readPtr b) mod unat (packetSize b) = 0 \<and> readPtr b < rawBufferSize b \<and>
         unat (writePtr b) mod unat (packetSize b) = 0 \<and> writePtr b < rawBufferSize b"
proof -
  have inv: "buffer_inv b" using reachable_inv [OF assms] by simp
  show ?thesis using inv_readPtr [OF inv] inv_writePtr [OF inv] by simp
qed

text \<open>
  C7. The specification has both offsets always be multiples of the element size and
  below the byte size of the store. The constructor does not check the product
  \<open>_packetSize * _bufferSize\<close>. With \<open>sizeof(T) = 4\<close> and \<open>2 ^ 62\<close> slots it wraps to 0:
  the object is constructed, \<open>read\<close> throws \<open>ErrorNothingToRead\<close> and leaves it as it
  was, and the offsets, both 0, are not below \<open>_rawBufferSize\<close>. With \<open>sizeof(T) = 3\<close>
  and 6148914691236517206 slots it wraps to 2: one \<open>write\<close> of one element leaves
  \<open>_writePtr\<close> at 1, which is not a multiple of 3.
\<close>

theorem cursors_after_wrap:
  "new_CircularBuffer (heap_alloc 4096) 4 4611686018427387904 =
     Inr \<lparr>packetSize = 4, bufferSize = 4611686018427387904, rawBufferSize = 0, buffer = [],
          readPtr = 0, writePtr = 0\<rparr> \<and>
   read 0 \<lparr>packetSize = 4, bufferSize = 4611686018427387904, rawBufferSize = 0, buffer = [],
            readPtr = 0, writePtr = 0\<rparr> =
     Some (Inl ErrorNothingToRead,
           \<lparr>packetSize = 4, bufferSize = 4611686018427387904, rawBufferSize = 0, buffer = [],
            readPtr = 0, writePtr = 0\<rparr>) \<and>
   \<not> readPtr \<lparr>packetSize = 4, bufferSize = 4611686018427387904, rawBufferSize = 0, buffer = [],
               readPtr = 0, writePtr = 0\<rparr>
       < rawBufferSize \<lparr>packetSize = 4, bufferSize = 4611686018427387904, rawBufferSize = 0,
               buffer = [], readPtr = 0, writePtr = 0\<rparr> \<and>
   new_CircularBuffer (heap_alloc 4096) 3 6148914691236517206 =
     Inr \<lparr>packetSize = 3, bufferSize = 6148914691236517206, rawBufferSize = 2, buffer = [0, 0],
          readPtr = 0, writePtr = 0\<rparr> \<and>
   writePtr (fst (snd (the (write_packets 1
       \<lparr>packetSize = 3, bufferSize = 6148914691236517206, rawBufferSize = 2, buffer = [0, 0],
        readPtr = 0, writePtr = 0\<rparr> [[1, 2, 3]] True)))) = 1 \<and>
   unat (1 :: size_t) mod unat (3 :: size_t) \<noteq> 0"
  by code_simp




text \<open>
  C8. In a state that satisfies the invariant, \<open>read\<close> returns once its loop may run
  as many times as there are elements queued, and \<open>write\<close> returns once its loop may
  run as many times as there are free slots; the two numbers add up to
  \<open>_bufferSize - 1\<close>. Neither function waits for anything, and neither divides by zero.
\<close>

theorem read_write_bounded:
  assumes "buffer_inv b" and "packets_ok b packets"
  shows "(resident b \<le> n \<longrightarrow> (\<exists>r. read n b = Some r \<and> fst r \<noteq> Inl DivisionByZero)) \<and>
         (free_slots b \<le> n \<longrightarrow>
            (\<exists>r. write_packets n b packets removeWrittenPackets = Some r \<and>
                 fst r \<noteq> Inl DivisionByZero)) \<and>
         resident b + free_slots b = unat (bufferSize b) - 1"
proof -
  have "\<exists>r. read n b = Some r \<and> fst r \<noteq> Inl DivisionByZero" if "resident b \<le> n"
    using that by (simp add: read_spec [OF assms(1)])
  moreover have "\<exists>r. write_packets n b packets removeWrittenPackets = Some r \<and>
                     fst r \<noteq> Inl DivisionByZero"
    if fuel: "free_slots b \<le> n"
  proof (cases "packets = []")
    case True
    then show ?thesis by (simp add: write_packets_def)
  next
    case ne: False
    show ?thesis
    proof (cases "next_offset b (writePtr b) = readPtr b")
      case True
      then show ?thesis using write_packets_busy [OF assms(1) ne True] by simp
    next
      case False
      obtain b' where "write_packets n b packets removeWrittenPackets = Some (Inr 0, b', packets)"
        using write_packets_spec [OF assms ne False, of n removeWrittenPackets] fuel by blast
      then show ?thesis by simp
    qed
  qed
  ultimately show ?thesis using resident_free [OF assms(1)] by blast
qed

theorem read_write_bounded_witness:
  "buffer_inv \<lparr>packetSize = 1, bufferSize = 4, rawBufferSize = 4, buffer = [5, 6, 0, 0],
                readPtr = 0, writePtr = 2\<rparr> \<and>
   packets_ok \<lparr>packetSize = 1, bufferSize = 4, rawBufferSize = 4, buffer = [5, 6, 0, 0],
                readPtr = 0, writePtr = 2\<rparr> [[7], [8]] \<and>
   resident \<lparr>packetSize = 1, bufferSize = 4, rawBufferSize = 4, buffer = [5, 6, 0, 0],
              readPtr = 0, writePtr = 2\<rparr> \<le> 2 \<and>
   free_slots \<lparr>packetSize = 1, bufferSize = 4, rawBufferSize = 4, buffer = [5, 6, 0, 0],
                readPtr = 0, writePtr = 2\<rparr> \<le> 2 \<and>
   read 2 \<lparr>packetSize = 1, bufferSize = 4, rawBufferSize = 4, buffer = [5, 6, 0, 0],
            readPtr = 0, writePtr = 2\<rparr> \<noteq> None \<and>
   write_packets 2 \<lparr>packetSize = 1, bufferSize = 4, rawBufferSize = 4, buffer = [5, 6, 0, 0],
                    readPtr = 0, writePtr = 2\<rparr> [[7], [8]] True \<noteq> None"
proof -
  let ?b = "\<lparr>packetSize = 1, bufferSize = 4, rawBufferSize = 4, buffer = [5, 6, 0, 0],
             readPtr = 0, writePtr = 2\<rparr> :: CircularBuffer"
  have inv: "buffer_inv ?b" by (simp add: buffer_inv_def)
  have ok: "packets_ok ?b [[7], [8]]" by (simp add: packets_ok_def)
  have res: "resident ?b = 2" by (simp add: resident_def slot_of_def)
  have fr: "free_slots ?b = 1" by (simp add: free_slots_def resident_def slot_of_def)
  show ?thesis
    using read_write_bounded [OF inv ok, of 2 True] inv ok res fr by auto
qed

section \<open>Construction\<close>




section \<open>What the loop of write stores\<close>

text \<open>
  The loop of \<open>write\<close> never changes \<open>packetIndex\<close>. So it copies \<open>packets[0]\<close> into
  every free slot, \<open>write\<close> returns 0, and nothing is erased from the vector
  (\<open>write_packets_spec\<close> above). The two evaluations below run the functions on elements
  of one byte.
\<close>

text \<open>
  C1. A buffer of 5 slots, \<open>write\<close> of the elements 1, 2, 3, then \<open>read\<close>: the
  specification expects \<open>read\<close> to return 1, 2, 3. The code returns 1, 1, 1, 1 (and
  \<open>write\<close> has returned 0 and left the vector as it was). After the \<open>read\<close>,
  \<open>canRead()\<close> is false.
\<close>

theorem fifo_round_trip_fails:
  "new_CircularBuffer (heap_alloc 4096) 1 5 =
     Inr \<lparr>packetSize = 1, bufferSize = 5, rawBufferSize = 5, buffer = [0, 0, 0, 0, 0],
          readPtr = 0, writePtr = 0\<rparr> \<and>
   write_packets 4 \<lparr>packetSize = 1, bufferSize = 5, rawBufferSize = 5, buffer = [0, 0, 0, 0, 0],
                    readPtr = 0, writePtr = 0\<rparr> [[1], [2], [3]] True =
     Some (Inr 0,
           \<lparr>packetSize = 1, bufferSize = 5, rawBufferSize = 5, buffer = [1, 1, 1, 1, 0],
            readPtr = 0, writePtr = 4\<rparr>,
           [[1], [2], [3]]) \<and>
   read 4 \<lparr>packetSize = 1, bufferSize = 5, rawBufferSize = 5, buffer = [1, 1, 1, 1, 0],
            readPtr = 0, writePtr = 4\<rparr> =
     Some (Inr [[1], [1], [1], [1]],
           \<lparr>packetSize = 1, bufferSize = 5, rawBufferSize = 5, buffer = [1, 1, 1, 1, 0],
            readPtr = 4, writePtr = 4\<rparr>) \<and>
   canRead \<lparr>packetSize = 1, bufferSize = 5, rawBufferSize = 5, buffer = [1, 1, 1, 1, 0],
            readPtr = 4, writePtr = 4\<rparr> =
     (False, \<lparr>packetSize = 1, bufferSize = 5, rawBufferSize = 5, buffer = [1, 1, 1, 1, 0],
            readPtr = 4, writePtr = 4\<rparr>)"
  by code_simp

text \<open>
  C2. A buffer of 4 slots and \<open>write\<close> of the elements 1 to 6 with the removal flag
  set: the specification expects 1, 2, 3 to be stored, 3 to be returned and 4, 5, 6 to be
  left in the vector. The code stores 1, 1, 1, returns 0 and leaves all six elements.
\<close>

theorem write_six_into_four:
  "new_CircularBuffer (heap_alloc 4096) 1 4 =
     Inr \<lparr>packetSize = 1, bufferSize = 4, rawBufferSize = 4, buffer = [0, 0, 0, 0],
          readPtr = 0, writePtr = 0\<rparr> \<and>
   write_packets 3 \<lparr>packetSize = 1, bufferSize = 4, rawBufferSize = 4, buffer = [0, 0, 0, 0],
                    readPtr = 0, writePtr = 0\<rparr> [[1], [2], [3], [4], [5], [6]] True =
     Some (Inr 0,
           \<lparr>packetSize = 1, bufferSize = 4, rawBufferSize = 4, buffer = [1, 1, 1, 0],
            readPtr = 0, writePtr = 3\<rparr>,
           [[1], [2], [3], [4], [5], [6]])"
  by code_simp

end
